theory Spec2Isabelle
  imports Main
begin

section \<open>The index scan executor's cursor step\<close>

text \<open>
  The development follows \<^verbatim>\<open>src/ee/executors/indexscanexecutor.h\<close>: the static helper
  \<^verbatim>\<open>IndexScanExecutor::getNextTuple\<close>, the constructor and \<^verbatim>\<open>p_isSuspendable\<close>.
  The index, its cursor and the tuple type are declared in other headers; the step is
  therefore modelled over an arbitrary index, given by its two cursor primitives.
\<close>

subsection \<open>Data\<close>

text \<open>
  Modelled from the spec: the enumeration \<^verbatim>\<open>IndexLookupType\<close> is declared in
  \<^verbatim>\<open>common/types.h\<close>, which is not part of the sources at hand. The header names two
  of its values, \<^verbatim>\<open>INDEX_LOOKUP_TYPE_EQ\<close> and \<^verbatim>\<open>INDEX_LOOKUP_TYPE_GEO_CONTAINS\<close>;
  the others are the variants the specification lists (equality, greater-than,
  greater-or-equal, less-than, less-or-equal, range, geo-contains).
\<close>

datatype IndexLookupType =
    INDEX_LOOKUP_TYPE_EQ
  | INDEX_LOOKUP_TYPE_GT
  | INDEX_LOOKUP_TYPE_GTE
  | INDEX_LOOKUP_TYPE_LT
  | INDEX_LOOKUP_TYPE_LTE
  | INDEX_LOOKUP_TYPE_RANGE
  | INDEX_LOOKUP_TYPE_GEO_CONTAINS

text \<open>
  A \<^verbatim>\<open>TableTuple\<close> is a view of one row, or the null tuple: \<open>None\<close> is the null tuple,
  \<open>Some r\<close> the view of row \<open>r\<close>.
\<close>

type_synonym 'r TableTuple = "'r option"

definition isNullTuple :: "'r TableTuple \<Rightarrow> bool" where
  "isNullTuple t = (t = None)"

text \<open>
  The index as the step sees it: \<^verbatim>\<open>index->nextValueAtKey(*cursor)\<close> and
  \<^verbatim>\<open>index->nextValue(*cursor)\<close> take the cursor by reference and return a tuple, so each
  primitive maps a cursor to the returned tuple and the cursor it leaves behind.
\<close>

record ('r, 'c) TableIndex =
  nextValueAtKey :: "'c \<Rightarrow> 'r TableTuple \<times> 'c"
  nextValue :: "'c \<Rightarrow> 'r TableTuple \<times> 'c"

text \<open>
  The calls made on the cursor are recorded, each with the tuple it returned, so that
  statements about which primitive is requested, and in which order, can be made.
\<close>

datatype 'r cursor_call =
    CallNextValueAtKey "'r TableTuple"
  | CallNextValue "'r TableTuple"

fun returned :: "'r cursor_call \<Rightarrow> 'r TableTuple" where
  "returned (CallNextValueAtKey t) = t"
| "returned (CallNextValue t) = t"

text \<open>
  What \<^verbatim>\<open>getNextTuple\<close> reads and writes through its pointer arguments: the output slot
  \<^verbatim>\<open>*tuple\<close>, the cursor \<^verbatim>\<open>*cursor\<close>, and the record of the calls made so far.
\<close>

record ('r, 'c) scan_state =
  tuple :: "'r TableTuple"
  cursor :: 'c
  calls :: "'r cursor_call list"

subsection \<open>The step\<close>

text \<open>\<^verbatim>\<open>*tuple = index->nextValueAtKey(*cursor);\<close>\<close>

definition assign_nextValueAtKey ::
  "('r, 'c) TableIndex \<Rightarrow> ('r, 'c) scan_state \<Rightarrow> ('r, 'c) scan_state" where
  "assign_nextValueAtKey index s =
     (case nextValueAtKey index (cursor s) of
        (t, c) \<Rightarrow> \<lparr>tuple = t, cursor = c, calls = calls s @ [CallNextValueAtKey t]\<rparr>)"

text \<open>\<^verbatim>\<open>*tuple = index->nextValue(*cursor);\<close>\<close>

definition assign_nextValue ::
  "('r, 'c) TableIndex \<Rightarrow> ('r, 'c) scan_state \<Rightarrow> ('r, 'c) scan_state" where
  "assign_nextValue index s =
     (case nextValue index (cursor s) of
        (t, c) \<Rightarrow> \<lparr>tuple = t, cursor = c, calls = calls s @ [CallNextValue t]\<rparr>)"

text \<open>
  \<^verbatim>\<open>getNextTuple(lookupType, tuple, index, cursor, activeNumOfSearchKeys)\<close>: the first
  conditional with its early \<^verbatim>\<open>return true\<close>, the second conditional, and the final
  \<^verbatim>\<open>return ! tuple->isNullTuple()\<close>. The result is the returned boolean and the state
  left behind.
\<close>

definition getNextTuple ::
  "IndexLookupType \<Rightarrow> ('r, 'c) TableIndex \<Rightarrow> int \<Rightarrow> ('r, 'c) scan_state
     \<Rightarrow> bool \<times> ('r, 'c) scan_state" where
  "getNextTuple lookupType index activeNumOfSearchKeys s =
     (let s1 = (if lookupType = INDEX_LOOKUP_TYPE_EQ
                   \<or> lookupType = INDEX_LOOKUP_TYPE_GEO_CONTAINS
                then assign_nextValueAtKey index s else s)
      in if (lookupType = INDEX_LOOKUP_TYPE_EQ
               \<or> lookupType = INDEX_LOOKUP_TYPE_GEO_CONTAINS)
            \<and> \<not> isNullTuple (tuple s1)
         then (True, s1)
         else
           (let s2 = (if (lookupType \<noteq> INDEX_LOOKUP_TYPE_EQ
                           \<and> lookupType \<noteq> INDEX_LOOKUP_TYPE_GEO_CONTAINS)
                          \<or> activeNumOfSearchKeys = 0
                      then assign_nextValue index s1 else s1)
            in (\<not> isNullTuple (tuple s2), s2)))"

text \<open>The calls one step adds to the record.\<close>

definition new_calls ::
  "('r, 'c) scan_state \<Rightarrow> ('r, 'c) scan_state \<Rightarrow> 'r cursor_call list" where
  "new_calls s s' = drop (length (calls s)) (calls s')"

text \<open>
  The outcomes of \<open>k\<close> successive calls of \<^verbatim>\<open>getNextTuple\<close> on the same index and
  cursor: for each call the boolean it returned and the tuple it left in the output slot.
\<close>

fun getNextTuple_outcomes ::
  "nat \<Rightarrow> IndexLookupType \<Rightarrow> ('r, 'c) TableIndex \<Rightarrow> int \<Rightarrow> ('r, 'c) scan_state
     \<Rightarrow> (bool \<times> 'r TableTuple) list" where
  "getNextTuple_outcomes 0 lookupType index n s = []"
| "getNextTuple_outcomes (Suc k) lookupType index n s =
     (case getNextTuple lookupType index n s of
        (b, s') \<Rightarrow> (b, tuple s') # getNextTuple_outcomes k lookupType index n s')"

text \<open>The same for \<open>k\<close> successive calls of the index's own \<^verbatim>\<open>nextValue\<close>.\<close>

fun nextValue_outcomes ::
  "nat \<Rightarrow> ('r, 'c) TableIndex \<Rightarrow> 'c \<Rightarrow> (bool \<times> 'r TableTuple) list" where
  "nextValue_outcomes 0 index c = []"
| "nextValue_outcomes (Suc k) index c =
     (case nextValue index c of
        (t, c') \<Rightarrow> (\<not> isNullTuple t, t) # nextValue_outcomes k index c')"

subsection \<open>A list model of the index\<close>

text \<open>
  Modelled from the spec: the index and its cursor (\<^verbatim>\<open>TableIndex\<close>, \<^verbatim>\<open>IndexCursor\<close>)
  are declared in \<^verbatim>\<open>indexes/tableindex.h\<close>, which is not part of the sources at hand.
  The specification names three primitives, "position cursor at/around key", "advance
  to next duplicate at current key" and "advance to next value in direction". The
  model keeps, in the cursor, the entries (key and row) still ahead of it in scan
  direction, and the key the cursor was positioned at, if any.
\<close>

record ('k, 'r) IndexCursor =
  remaining :: "('k \<times> 'r) list"
  match :: "'k option"

text \<open>
  Modelled from the spec: the primitive "advance to next duplicate at current key" of
  the index, which is not part of the sources at hand. It returns the next entry's row
  when that entry has the key the cursor was positioned at, and the null tuple
  otherwise, leaving the cursor where it is.
\<close>

definition model_nextValueAtKey ::
  "('k, 'r) IndexCursor \<Rightarrow> 'r TableTuple \<times> ('k, 'r) IndexCursor" where
  "model_nextValueAtKey c =
     (case remaining c of
        [] \<Rightarrow> (None, c)
      | e # es \<Rightarrow>
          if match c = Some (fst e) then (Some (snd e), c\<lparr>remaining := es\<rparr>)
          else (None, c))"

text \<open>
  Modelled from the spec: the primitive "advance to next value in direction" of the
  index, which is not part of the sources at hand. It returns the next entry's row, or
  the null tuple at the end of the index.
\<close>

definition model_nextValue ::
  "('k, 'r) IndexCursor \<Rightarrow> 'r TableTuple \<times> ('k, 'r) IndexCursor" where
  "model_nextValue c =
     (case remaining c of
        [] \<Rightarrow> (None, c)
      | e # es \<Rightarrow> (Some (snd e), c\<lparr>remaining := es\<rparr>))"

text \<open>
  Modelled from the spec: the index object handed to \<^verbatim>\<open>getNextTuple\<close>, made of the
  two primitives above.
\<close>

definition model_index :: "('r, ('k, 'r) IndexCursor) TableIndex" where
  "model_index = \<lparr>nextValueAtKey = model_nextValueAtKey, nextValue = model_nextValue\<rparr>"

text \<open>
  Modelled from the spec: the primitive "position cursor at/around key" of the index,
  which is not part of the sources at hand: at a key (for an equality lookup), after a
  key (for a greater-than lookup), or at the start of the index (no search key). The
  entries are the index content in index order.
\<close>

definition moveToKey :: "('k::linorder \<times> 'r) list \<Rightarrow> 'k \<Rightarrow> ('k, 'r) IndexCursor" where
  "moveToKey entries k =
     \<lparr>remaining = dropWhile (\<lambda>e. fst e < k) entries, match = Some k\<rparr>"

definition moveToGreaterThanKey ::
  "('k::linorder \<times> 'r) list \<Rightarrow> 'k \<Rightarrow> ('k, 'r) IndexCursor" where
  "moveToGreaterThanKey entries k =
     \<lparr>remaining = dropWhile (\<lambda>e. fst e \<le> k) entries, match = None\<rparr>"

definition moveToEnd :: "('k \<times> 'r) list \<Rightarrow> ('k, 'r) IndexCursor" where
  "moveToEnd entries = \<lparr>remaining = entries, match = None\<rparr>"

text \<open>A scan state with an empty output slot and no call made yet.\<close>

definition start_scan :: "'c \<Rightarrow> ('r, 'c) scan_state" where
  "start_scan c = \<lparr>tuple = None, cursor = c, calls = []\<rparr>"

text \<open>
  The example index of the specification: column A with rows A = [1, 1, 2, 3]. A row
  is its A value and its position in the table, so that the two duplicates differ.
\<close>

definition example_entries :: "(int \<times> (int \<times> nat)) list" where
  "example_entries = [(1, (1, 0)), (1, (1, 1)), (2, (2, 2)), (3, (3, 3))]"

subsection \<open>The executor\<close>

text \<open>
  The members of \<^verbatim>\<open>IndexScanExecutor\<close> that the scan reads. \<^verbatim>\<open>m_projectionNode\<close> is the
  inline projection (absent when the pointer is null), given as the function from a row
  to its projected row. \<^verbatim>\<open>m_searchKeyBackingStore\<close> and \<^verbatim>\<open>m_aggExec\<close> are pointers, absent
  when null.
\<close>

typedecl AggregateExecutorBase

record 'r IndexScanExecutor =
  m_numOfSearchkeys :: int
  m_projectionNode :: "('r \<Rightarrow> 'r) option"
  m_lookupType :: IndexLookupType
  m_searchKeyBackingStore :: "string option"
  m_suspendable :: bool
  m_tupleLimitForSuspendableFragments :: int
  m_aggExec :: "AggregateExecutorBase option"

text \<open>
  The constructor's initialiser list: \<^verbatim>\<open>m_searchKeyBackingStore(NULL)\<close>,
  \<^verbatim>\<open>m_suspendable(false)\<close>, \<^verbatim>\<open>m_tupleLimitForSuspendableFragments(1)\<close>,
  \<^verbatim>\<open>m_aggExec(NULL)\<close>. The members it does not initialise keep whatever the memory
  held, which is the argument.
\<close>

definition IndexScanExecutor_new :: "'r IndexScanExecutor \<Rightarrow> 'r IndexScanExecutor" where
  "IndexScanExecutor_new uninitialised =
     uninitialised\<lparr>m_searchKeyBackingStore := None,
                   m_suspendable := False,
                   m_tupleLimitForSuspendableFragments := 1,
                   m_aggExec := None\<rparr>"

text \<open>\<^verbatim>\<open>virtual bool p_isSuspendable() { return m_suspendable; }\<close>\<close>

definition p_isSuspendable :: "'r IndexScanExecutor \<Rightarrow> bool" where
  "p_isSuspendable ex = m_suspendable ex"

subsection \<open>The output pipeline and the scan loop\<close>

text \<open>
  Modelled from the spec: \<^verbatim>\<open>CountingPostfilter\<close> is only declared in the header; its
  definition is not part of the sources at hand. The specification gives it an offset
  and an optional limit, and as state the running counts of rows skipped (offset) and
  rows kept (limit).
\<close>

record CountingPostfilter =
  pf_offset :: nat
  pf_limit :: "nat option"
  pf_skipped :: nat
  pf_kept :: nat

text \<open>
  Modelled from the spec: the postfilter at the start of a logical scan, nothing
  skipped and nothing kept (the constructor of \<^verbatim>\<open>CountingPostfilter\<close> is not part of the
  sources at hand).
\<close>

definition new_postfilter :: "nat \<Rightarrow> nat option \<Rightarrow> CountingPostfilter" where
  "new_postfilter ofs lim = \<lparr>pf_offset = ofs, pf_limit = lim, pf_skipped = 0, pf_kept = 0\<rparr>"

text \<open>
  Modelled from the spec: "stop entirely once limit threshold reached" (a method of
  \<^verbatim>\<open>CountingPostfilter\<close>, which is not part of the sources at hand). The scan goes on
  while fewer rows than the limit have been kept; without a limit it always goes on.
\<close>

definition isUnderLimit :: "CountingPostfilter \<Rightarrow> bool" where
  "isUnderLimit pf = (case pf_limit pf of None \<Rightarrow> True | Some l \<Rightarrow> pf_kept pf < l)"

text \<open>
  Modelled from the spec: "increment seen-count; discard while under offset threshold"
  (a method of \<^verbatim>\<open>CountingPostfilter\<close>, which is not part of the sources at hand). A row is
  discarded, and counted as skipped, while fewer rows than the offset have been
  skipped; otherwise it is kept and counted.
\<close>

definition postfilter_eval :: "CountingPostfilter \<Rightarrow> bool \<times> CountingPostfilter" where
  "postfilter_eval pf =
     (if pf_skipped pf < pf_offset pf then (False, pf\<lparr>pf_skipped := pf_skipped pf + 1\<rparr>)
      else (True, pf\<lparr>pf_kept := pf_kept pf + 1\<rparr>))"

text \<open>
  Modelled from the spec: the projection stage (the projector is not part of the
  sources at hand): "if an inline projection is configured, materialize only the
  referenced/computed output columns; otherwise pass the row through unmodified".
\<close>

definition project :: "'r IndexScanExecutor \<Rightarrow> 'r \<Rightarrow> 'r" where
  "project ex row = (case m_projectionNode ex of None \<Rightarrow> row | Some f \<Rightarrow> f row)"

text \<open>
  Modelled from the spec: the output pipeline for one candidate row, projection and
  then postfilter (the body of \<^verbatim>\<open>outputTuple\<close> and the loop of \<^verbatim>\<open>p_execute\<close> are not part
  of the sources at hand). The result is the rows handed on (to the output table or to
  the inline aggregation) and the new postfilter state.
\<close>

definition pipeline_process ::
  "'r IndexScanExecutor \<Rightarrow> CountingPostfilter \<Rightarrow> 'r \<Rightarrow> 'r list \<times> CountingPostfilter" where
  "pipeline_process ex pf row =
     (let projected = project ex row
      in case postfilter_eval pf of
           (keep, pf') \<Rightarrow> (if keep then [projected] else [], pf'))"

text \<open>
  Modelled from the spec: the completion status of one invocation, "exhausted",
  "limit-reached" or "suspended-more-available".
\<close>

datatype scan_status = Exhausted | LimitReached | Suspended

text \<open>
  Modelled from the spec: the suspension check (\<^verbatim>\<open>p_execute\<close> is not part of the sources
  at hand): "check the counter against the configured limit. If the limit is reached
  and the executor is suspendable, stop processing".
\<close>

definition suspend_now :: "'r IndexScanExecutor \<Rightarrow> nat \<Rightarrow> bool" where
  "suspend_now ex counter =
     (p_isSuspendable ex \<and> m_tupleLimitForSuspendableFragments ex \<le> int counter)"

type_synonym ('k, 'r) model_state = "('r, ('k, 'r) IndexCursor) scan_state"

type_synonym ('k, 'r) scan_result =
  "'r list \<times> scan_status \<times> CountingPostfilter \<times> ('k, 'r) model_state"

text \<open>The rows of an earlier part of a scan, put before the result of the rest.\<close>

definition emit_before :: "'r list \<Rightarrow> ('k, 'r) scan_result \<Rightarrow> ('k, 'r) scan_result" where
  "emit_before rows res = (case res of (rows', rest) \<Rightarrow> (rows @ rows', rest))"

text \<open>
  On the list model, a step that returns true has moved the cursor past one entry.
  This is what makes the scan loop terminate.
\<close>

lemma getNextTuple_model_progress:
  assumes "getNextTuple lookupType model_index n s = (True, s')"
  shows "length (remaining (cursor s')) < length (remaining (cursor s))"
  using assms
  by (auto simp: getNextTuple_def Let_def assign_nextValueAtKey_def assign_nextValue_def
        model_index_def model_nextValueAtKey_def model_nextValue_def isNullTuple_def
      split: if_splits list.splits)

text \<open>
  Modelled from the spec: the loop of one invocation of \<^verbatim>\<open>p_execute\<close>, which is not part
  of the sources at hand, on the list model of the index. The postfilter's limit ends
  the scan before a row is fetched. Otherwise \<^verbatim>\<open>getNextTuple\<close> is asked for the next
  candidate row; false ends the scan as exhausted. "Before emitting each row to the
  pipeline, check the counter against the configured limit": when the executor is
  suspendable and the counter of this invocation has reached the limit, the invocation
  stops as suspended, "leaving the index cursor positioned exactly at the next
  unprocessed row", that is, in the state before that row was fetched. Otherwise the
  row goes through the pipeline and the counter is incremented. A step that returns
  true leaves a non-null tuple in the output slot; the branch for a null tuple is
  there for totality only and ends the scan.
\<close>

function scan_loop ::
  "'r IndexScanExecutor \<Rightarrow> nat \<Rightarrow> CountingPostfilter \<Rightarrow> ('k, 'r) model_state
     \<Rightarrow> ('k, 'r) scan_result" where
  "scan_loop ex counter pf s =
     (if \<not> isUnderLimit pf then ([], LimitReached, pf, s)
      else
        (case getNextTuple (m_lookupType ex) model_index (m_numOfSearchkeys ex) s of
           (found, s') \<Rightarrow>
             if \<not> found then ([], Exhausted, pf, s')
             else if suspend_now ex counter then ([], Suspended, pf, s)
             else
               (case tuple s' of
                  None \<Rightarrow> ([], Exhausted, pf, s')
                | Some row \<Rightarrow>
                    (case pipeline_process ex pf row of
                       (out, pf') \<Rightarrow> emit_before out (scan_loop ex (Suc counter) pf' s')))))"
  by pat_completeness auto
termination
  by (relation "measure (\<lambda>(ex, counter, pf, s). length (remaining (cursor s)))")
    (auto dest: getNextTuple_model_progress [OF sym])

declare scan_loop.simps [simp del]

text \<open>
  Modelled from the spec: one invocation of \<^verbatim>\<open>p_execute\<close> (not part of the sources at
  hand), with the per-invocation counter starting at zero. The postfilter state and the
  scan state (with the cursor) are those of the logical scan: they come in from the
  previous invocation and go out to the next.
\<close>

definition p_execute ::
  "'r IndexScanExecutor \<Rightarrow> CountingPostfilter \<Rightarrow> ('k, 'r) model_state
     \<Rightarrow> ('k, 'r) scan_result" where
  "p_execute ex pf s = scan_loop ex 0 pf s"

text \<open>
  Modelled from the spec: a logical scan run as a sequence of suspend/resume
  invocations of a suspendable executor, one row limit per invocation. An invocation
  that ends as suspended is followed by the next one, which starts from the postfilter
  state and the scan state the suspended one left; the search key is not evaluated and
  the cursor is not positioned again. The rows of the invocations are concatenated.
  When the limits run out, the status is that of the last invocation, suspended.
\<close>

fun resume_invocations ::
  "'r IndexScanExecutor \<Rightarrow> int list \<Rightarrow> CountingPostfilter \<Rightarrow> ('k, 'r) model_state
     \<Rightarrow> ('k, 'r) scan_result" where
  "resume_invocations ex [] pf s = ([], Suspended, pf, s)"
| "resume_invocations ex (l # ls) pf s =
     (case p_execute (ex\<lparr>m_suspendable := True, m_tupleLimitForSuspendableFragments := l\<rparr>) pf s of
        (rows, status, pf', s') \<Rightarrow>
          if status = Suspended then emit_before rows (resume_invocations ex ls pf' s')
          else (rows, status, pf', s'))"

text \<open>
  The match sequence of a scan: the candidate rows \<^verbatim>\<open>getNextTuple\<close> yields from a scan
  state on the list model, up to the first call that returns false.
\<close>

function candidate_rows ::
  "IndexLookupType \<Rightarrow> int \<Rightarrow> ('k, 'r) model_state \<Rightarrow> 'r list" where
  "candidate_rows lookupType n s =
     (case getNextTuple lookupType model_index n s of
        (found, s') \<Rightarrow>
          if \<not> found then []
          else (case tuple s' of
                  None \<Rightarrow> []
                | Some row \<Rightarrow> row # candidate_rows lookupType n s'))"
  by pat_completeness auto
termination
  by (relation "measure (\<lambda>(lookupType, n, s). length (remaining (cursor s)))")
    (auto dest: getNextTuple_model_progress [OF sym])

declare candidate_rows.simps [simp del]

text \<open>
  What a postfilter in a given state lets through of the rows still to come: it drops
  the rows it still has to skip, and of the others takes as many as it may still keep.
\<close>

definition postfilter_select :: "CountingPostfilter \<Rightarrow> 'r list \<Rightarrow> 'r list" where
  "postfilter_select pf rows =
     (case pf_limit pf of
        None \<Rightarrow> drop (pf_offset pf - pf_skipped pf) rows
      | Some l \<Rightarrow> take (l - pf_kept pf) (drop (pf_offset pf - pf_skipped pf) rows))"

text \<open>
  The number of candidate rows a postfilter with limit \<open>l\<close> consumes before the limit
  ends the scan.
\<close>

definition rows_needed :: "CountingPostfilter \<Rightarrow> nat \<Rightarrow> nat" where
  "rows_needed pf l =
     (if l \<le> pf_kept pf then 0 else (pf_offset pf - pf_skipped pf) + (l - pf_kept pf))"

text \<open>
  An executor for the example index: no search key, a greater-or-equal lookup, no
  inline projection, suspendable after two rows.
\<close>

definition example_executor :: "(int \<times> nat) IndexScanExecutor" where
  "example_executor =
     \<lparr>m_numOfSearchkeys = 0, m_projectionNode = None, m_lookupType = INDEX_LOOKUP_TYPE_GTE,
      m_searchKeyBackingStore = None, m_suspendable = True,
      m_tupleLimitForSuspendableFragments = 2, m_aggExec = None\<rparr>"

section \<open>Properties of the step\<close>

text \<open>
  The four ways through \<^verbatim>\<open>getNextTuple\<close>, each with the result it gives.
\<close>

lemma getNextTuple_eq_found:
  assumes "lookupType = INDEX_LOOKUP_TYPE_EQ \<or> lookupType = INDEX_LOOKUP_TYPE_GEO_CONTAINS"
    and "nextValueAtKey index (cursor s) = (Some r, c)"
  shows "getNextTuple lookupType index n s =
           (True, \<lparr>tuple = Some r, cursor = c, calls = calls s @ [CallNextValueAtKey (Some r)]\<rparr>)"
  using assms by (auto simp: getNextTuple_def assign_nextValueAtKey_def isNullTuple_def)

lemma getNextTuple_eq_exhausted_keys:
  assumes "lookupType = INDEX_LOOKUP_TYPE_EQ \<or> lookupType = INDEX_LOOKUP_TYPE_GEO_CONTAINS"
    and "nextValueAtKey index (cursor s) = (None, c)"
    and "n \<noteq> 0"
  shows "getNextTuple lookupType index n s =
           (False, \<lparr>tuple = None, cursor = c, calls = calls s @ [CallNextValueAtKey None]\<rparr>)"
  using assms by (auto simp: getNextTuple_def assign_nextValueAtKey_def isNullTuple_def)

lemma getNextTuple_eq_exhausted_nokeys:
  assumes "lookupType = INDEX_LOOKUP_TYPE_EQ \<or> lookupType = INDEX_LOOKUP_TYPE_GEO_CONTAINS"
    and "nextValueAtKey index (cursor s) = (None, c)"
    and "nextValue index c = (t, c')"
  shows "getNextTuple lookupType index 0 s =
           (t \<noteq> None, \<lparr>tuple = t, cursor = c',
                        calls = calls s @ [CallNextValueAtKey None, CallNextValue t]\<rparr>)"
  using assms
  by (auto simp: getNextTuple_def assign_nextValueAtKey_def assign_nextValue_def isNullTuple_def)

lemma getNextTuple_other:
  assumes "lookupType \<noteq> INDEX_LOOKUP_TYPE_EQ" and "lookupType \<noteq> INDEX_LOOKUP_TYPE_GEO_CONTAINS"
    and "nextValue index (cursor s) = (t, c)"
  shows "getNextTuple lookupType index n s =
           (t \<noteq> None, \<lparr>tuple = t, cursor = c, calls = calls s @ [CallNextValue t]\<rparr>)"
  using assms by (auto simp: getNextTuple_def assign_nextValue_def isNullTuple_def)

lemma new_calls_append [simp]:
  "new_calls s \<lparr>tuple = t, cursor = c, calls = calls s @ cs\<rparr> = cs"
  by (simp add: new_calls_def)

text \<open>
  Successive steps with a lookup type other than equality and geo-contains are
  successive \<^verbatim>\<open>nextValue\<close> calls; on the list model these walk the entries in order.
\<close>

lemma getNextTuple_outcomes_other:
  assumes "lookupType \<noteq> INDEX_LOOKUP_TYPE_EQ" and "lookupType \<noteq> INDEX_LOOKUP_TYPE_GEO_CONTAINS"
  shows "getNextTuple_outcomes k lookupType index n s = nextValue_outcomes k index (cursor s)"
proof (induction k arbitrary: s)
  case 0
  show ?case by simp
next
  case (Suc k)
  obtain t c where nv: "nextValue index (cursor s) = (t, c)"
    by (cases "nextValue index (cursor s)")
  have step: "getNextTuple lookupType index n s =
      (t \<noteq> None, \<lparr>tuple = t, cursor = c, calls = calls s @ [CallNextValue t]\<rparr>)"
    using assms nv by (rule getNextTuple_other)
  show ?case
    by (simp add: step nv Suc.IH isNullTuple_def)
qed

lemma model_nextValue_outcomes_end:
  "nextValue_outcomes (Suc (length es)) model_index \<lparr>remaining = es, match = m\<rparr>
     = map (\<lambda>e. (True, Some (snd e))) es @ [(False, None)]"
  by (induction es) (simp_all add: model_index_def model_nextValue_def isNullTuple_def)

text \<open>The cursor positions on the example index.\<close>

lemma example_moveToKey:
  "moveToKey example_entries 1 =
     \<lparr>remaining = [(1, (1, 0)), (1, (1, 1)), (2, (2, 2)), (3, (3, 3))], match = Some 1\<rparr>"
  by (simp add: moveToKey_def example_entries_def)

lemma example_moveToGreaterThanKey:
  "moveToGreaterThanKey example_entries 1 =
     \<lparr>remaining = [(2, (2, 2)), (3, (3, 3))], match = None\<rparr>"
  by (simp add: moveToGreaterThanKey_def example_entries_def)

lemma model_index_sel [simp]:
  "nextValueAtKey model_index = model_nextValueAtKey"
  "nextValue model_index = model_nextValue"
  by (simp_all add: model_index_def)

text \<open>
  C1: for every index, cursor state and active-key count, when the lookup type is
  equality or geo-contains, the first call one step of \<^verbatim>\<open>getNextTuple\<close> makes on the
  cursor is \<^verbatim>\<open>nextValueAtKey\<close>; and when that call returns a non-null tuple, the step
  returns true with that tuple in the output slot, the cursor as \<^verbatim>\<open>nextValueAtKey\<close>
  left it, and no other call made (in particular no \<^verbatim>\<open>nextValue\<close>).
\<close>

theorem getNextTuple_eq_nextValueAtKey_first:
  assumes "lookupType = INDEX_LOOKUP_TYPE_EQ \<or> lookupType = INDEX_LOOKUP_TYPE_GEO_CONTAINS"
  shows "take 1 (new_calls s (snd (getNextTuple lookupType index n s)))
           = [CallNextValueAtKey (fst (nextValueAtKey index (cursor s)))]
       \<and> (\<not> isNullTuple (fst (nextValueAtKey index (cursor s))) \<longrightarrow>
            getNextTuple lookupType index n s =
              (True, \<lparr>tuple = fst (nextValueAtKey index (cursor s)),
                      cursor = snd (nextValueAtKey index (cursor s)),
                      calls = calls s
                        @ [CallNextValueAtKey (fst (nextValueAtKey index (cursor s)))]\<rparr>))"
proof (cases "nextValueAtKey index (cursor s)")
  case (Pair t c)
  show ?thesis
  proof (cases t)
    case (Some r)
    with Pair have "nextValueAtKey index (cursor s) = (Some r, c)" by simp
    from getNextTuple_eq_found [OF assms this, of n] Pair Some
    show ?thesis by (simp add: isNullTuple_def)
  next
    case None
    with Pair have nvak: "nextValueAtKey index (cursor s) = (None, c)" by simp
    show ?thesis
    proof (cases "n = 0")
      case True
      obtain t' c' where "nextValue index c = (t', c')" by (cases "nextValue index c")
      from getNextTuple_eq_exhausted_nokeys [OF assms nvak this] True nvak
      show ?thesis by (simp add: isNullTuple_def)
    next
      case False
      from getNextTuple_eq_exhausted_keys [OF assms nvak False] nvak
      show ?thesis by (simp add: isNullTuple_def)
    qed
  qed
qed

theorem getNextTuple_eq_nextValueAtKey_first_witness:
  "(INDEX_LOOKUP_TYPE_EQ = INDEX_LOOKUP_TYPE_EQ
      \<or> INDEX_LOOKUP_TYPE_EQ = INDEX_LOOKUP_TYPE_GEO_CONTAINS)
   \<and> \<not> isNullTuple (fst (nextValueAtKey model_index
          (cursor (start_scan (moveToKey example_entries 1) :: (int \<times> nat, (int, int \<times> nat) IndexCursor) scan_state))))
   \<and> getNextTuple INDEX_LOOKUP_TYPE_EQ model_index 1 (start_scan (moveToKey example_entries 1))
       = (True, \<lparr>tuple = Some (1, 0),
                 cursor = \<lparr>remaining = [(1, (1, 1)), (2, (2, 2)), (3, (3, 3))], match = Some 1\<rparr>,
                 calls = [CallNextValueAtKey (Some (1, 0))]\<rparr>)"
  using getNextTuple_eq_nextValueAtKey_first
    [where lookupType = INDEX_LOOKUP_TYPE_EQ and index = model_index and n = 1
       and s = "start_scan (moveToKey example_entries 1)"]
  by (simp add: start_scan_def example_moveToKey model_nextValueAtKey_def isNullTuple_def)

text \<open>
  C2: for every index, cursor state and active-key count (zero included), when the
  lookup type is neither equality nor geo-contains, one step of \<^verbatim>\<open>getNextTuple\<close> makes
  exactly one call, \<^verbatim>\<open>nextValue\<close>, leaves the returned tuple in the output slot and
  returns true exactly when that tuple is non-null. Hence any number of successive
  steps yields what the same number of successive \<^verbatim>\<open>nextValue\<close> calls yields; on the
  list model of an index, with no search key and the cursor at the start, that is every
  row of the index in index order, followed by false.
\<close>

theorem getNextTuple_other_is_nextValue:
  assumes "lookupType \<noteq> INDEX_LOOKUP_TYPE_EQ"
    and "lookupType \<noteq> INDEX_LOOKUP_TYPE_GEO_CONTAINS"
  shows "getNextTuple lookupType index n s =
           (\<not> isNullTuple (fst (nextValue index (cursor s))),
            \<lparr>tuple = fst (nextValue index (cursor s)),
             cursor = snd (nextValue index (cursor s)),
             calls = calls s @ [CallNextValue (fst (nextValue index (cursor s)))]\<rparr>)
       \<and> getNextTuple_outcomes k lookupType index n s = nextValue_outcomes k index (cursor s)
       \<and> getNextTuple_outcomes (Suc (length entries)) lookupType model_index 0
            (start_scan (moveToEnd entries))
          = map (\<lambda>e. (True, Some (snd e))) entries @ [(False, None)]"
proof -
  obtain t c where nv: "nextValue index (cursor s) = (t, c)"
    by (cases "nextValue index (cursor s)")
  have one: "getNextTuple lookupType index n s =
      (t \<noteq> None, \<lparr>tuple = t, cursor = c, calls = calls s @ [CallNextValue t]\<rparr>)"
    using assms nv by (rule getNextTuple_other)
  have many: "getNextTuple_outcomes k lookupType index n s
      = nextValue_outcomes k index (cursor s)"
    using assms by (rule getNextTuple_outcomes_other)
  from getNextTuple_outcomes_other [OF assms, where index = model_index and n = 0
      and k = "Suc (length entries)" and s = "start_scan (moveToEnd entries)"]
  have full: "getNextTuple_outcomes (Suc (length entries)) lookupType model_index 0
          (start_scan (moveToEnd entries))
        = map (\<lambda>e. (True, Some (snd e))) entries @ [(False, None)]"
    by (simp only: start_scan_def moveToEnd_def scan_state.simps model_nextValue_outcomes_end)
  from one many full nv show ?thesis
    by (simp add: isNullTuple_def)
qed

theorem getNextTuple_other_is_nextValue_witness:
  "INDEX_LOOKUP_TYPE_GT \<noteq> INDEX_LOOKUP_TYPE_EQ
   \<and> INDEX_LOOKUP_TYPE_GT \<noteq> INDEX_LOOKUP_TYPE_GEO_CONTAINS
   \<and> getNextTuple INDEX_LOOKUP_TYPE_GT model_index 0 (start_scan (moveToEnd example_entries))
       = (True, \<lparr>tuple = Some (1, 0),
                 cursor = \<lparr>remaining = [(1, (1, 1)), (2, (2, 2)), (3, (3, 3))], match = None\<rparr>,
                 calls = [CallNextValue (Some (1, 0))]\<rparr>)
   \<and> getNextTuple_outcomes (Suc (length example_entries)) INDEX_LOOKUP_TYPE_GT model_index 0
        (start_scan (moveToEnd example_entries))
       = [(True, Some (1, 0)), (True, Some (1, 1)), (True, Some (2, 2)), (True, Some (3, 3)),
          (False, None)]"
  using getNextTuple_other_is_nextValue
    [where lookupType = INDEX_LOOKUP_TYPE_GT and index = model_index and n = 0
       and s = "start_scan (moveToEnd example_entries)" and k = 0
       and entries = example_entries]
  by (simp add: start_scan_def moveToEnd_def model_nextValue_def isNullTuple_def
        example_entries_def getNextTuple_def assign_nextValue_def)

text \<open>
  C3: when the lookup type is equality or geo-contains and \<^verbatim>\<open>nextValueAtKey\<close> returns
  the null tuple, the step calls \<^verbatim>\<open>nextValue\<close> if and only if the active-key count is
  zero. With a nonzero count it makes no further call and returns false, the output
  slot holding the null tuple; with a zero count it calls \<^verbatim>\<open>nextValue\<close> once and
  returns whether that tuple is non-null.
\<close>

theorem getNextTuple_eq_chain_exhausted:
  assumes "lookupType = INDEX_LOOKUP_TYPE_EQ \<or> lookupType = INDEX_LOOKUP_TYPE_GEO_CONTAINS"
    and "isNullTuple (fst (nextValueAtKey index (cursor s)))"
  shows "((\<exists>t. CallNextValue t \<in> set (new_calls s (snd (getNextTuple lookupType index n s))))
            = (n = 0))
       \<and> (n \<noteq> 0 \<longrightarrow>
            getNextTuple lookupType index n s =
              (False, \<lparr>tuple = None,
                       cursor = snd (nextValueAtKey index (cursor s)),
                       calls = calls s @ [CallNextValueAtKey None]\<rparr>))
       \<and> (n = 0 \<longrightarrow>
            getNextTuple lookupType index n s =
              (\<not> isNullTuple (fst (nextValue index (snd (nextValueAtKey index (cursor s))))),
               \<lparr>tuple = fst (nextValue index (snd (nextValueAtKey index (cursor s)))),
                cursor = snd (nextValue index (snd (nextValueAtKey index (cursor s)))),
                calls = calls s @ [CallNextValueAtKey None,
                  CallNextValue (fst (nextValue index (snd (nextValueAtKey index (cursor s)))))]\<rparr>))"
proof -
  obtain c where nvak: "nextValueAtKey index (cursor s) = (None, c)"
    using assms(2) by (cases "nextValueAtKey index (cursor s)") (simp add: isNullTuple_def)
  show ?thesis
  proof (cases "n = 0")
    case True
    obtain t' c' where nv: "nextValue index c = (t', c')" by (cases "nextValue index c")
    from getNextTuple_eq_exhausted_nokeys [OF assms(1) nvak nv] True nvak nv
    show ?thesis by (auto simp: isNullTuple_def)
  next
    case False
    from getNextTuple_eq_exhausted_keys [OF assms(1) nvak False] False nvak
    show ?thesis by simp
  qed
qed

theorem getNextTuple_eq_chain_exhausted_witness:
  "(INDEX_LOOKUP_TYPE_EQ = INDEX_LOOKUP_TYPE_EQ
      \<or> INDEX_LOOKUP_TYPE_EQ = INDEX_LOOKUP_TYPE_GEO_CONTAINS)
   \<and> isNullTuple (fst (nextValueAtKey model_index
        \<lparr>remaining = [(2::int, (2::int, 2::nat)), (3, (3, 3))], match = Some 1\<rparr>))
   \<and> getNextTuple INDEX_LOOKUP_TYPE_EQ model_index 1
        (start_scan \<lparr>remaining = [(2::int, (2::int, 2::nat)), (3, (3, 3))], match = Some 1\<rparr>)
       = (False, \<lparr>tuple = None,
                  cursor = \<lparr>remaining = [(2, (2, 2)), (3, (3, 3))], match = Some 1\<rparr>,
                  calls = [CallNextValueAtKey None]\<rparr>)
   \<and> getNextTuple INDEX_LOOKUP_TYPE_EQ model_index 0
        (start_scan \<lparr>remaining = [(2::int, (2::int, 2::nat)), (3, (3, 3))], match = Some 1\<rparr>)
       = (True, \<lparr>tuple = Some (2, 2),
                 cursor = \<lparr>remaining = [(3, (3, 3))], match = Some 1\<rparr>,
                 calls = [CallNextValueAtKey None, CallNextValue (Some (2, 2))]\<rparr>)"
  using getNextTuple_eq_chain_exhausted
    [where lookupType = INDEX_LOOKUP_TYPE_EQ and index = model_index and n = 1
       and s = "start_scan \<lparr>remaining = [(2::int, (2::int, 2::nat)), (3, (3, 3))], match = Some 1\<rparr>"]
    getNextTuple_eq_chain_exhausted
    [where lookupType = INDEX_LOOKUP_TYPE_EQ and index = model_index and n = 0
       and s = "start_scan \<lparr>remaining = [(2::int, (2::int, 2::nat)), (3, (3, 3))], match = Some 1\<rparr>"]
  by (simp add: start_scan_def model_nextValueAtKey_def model_nextValue_def isNullTuple_def)

text \<open>
  Every step has one of four shapes, according to the lookup type, the result of
  \<^verbatim>\<open>nextValueAtKey\<close> and the active-key count.
\<close>

lemma getNextTuple_shapes:
  obtains
    (found) r c where
      "getNextTuple lookupType index n s =
         (True, \<lparr>tuple = Some r, cursor = c, calls = calls s @ [CallNextValueAtKey (Some r)]\<rparr>)"
  | (ended) c where
      "getNextTuple lookupType index n s =
         (False, \<lparr>tuple = None, cursor = c, calls = calls s @ [CallNextValueAtKey None]\<rparr>)"
  | (fallback) t c where
      "getNextTuple lookupType index n s =
         (t \<noteq> None, \<lparr>tuple = t, cursor = c,
                      calls = calls s @ [CallNextValueAtKey None, CallNextValue t]\<rparr>)"
  | (other) t c where
      "getNextTuple lookupType index n s =
         (t \<noteq> None, \<lparr>tuple = t, cursor = c, calls = calls s @ [CallNextValue t]\<rparr>)"
proof (cases "lookupType = INDEX_LOOKUP_TYPE_EQ \<or> lookupType = INDEX_LOOKUP_TYPE_GEO_CONTAINS")
  case eq: True
  obtain t c where nvak: "nextValueAtKey index (cursor s) = (t, c)"
    by (cases "nextValueAtKey index (cursor s)")
  show ?thesis
  proof (cases t)
    case (Some r)
    with nvak have "nextValueAtKey index (cursor s) = (Some r, c)" by simp
    from getNextTuple_eq_found [OF eq this] show ?thesis by (rule found)
  next
    case None
    with nvak have nvak': "nextValueAtKey index (cursor s) = (None, c)" by simp
    show ?thesis
    proof (cases "n = 0")
      case True
      obtain t' c' where "nextValue index c = (t', c')" by (cases "nextValue index c")
      from getNextTuple_eq_exhausted_nokeys [OF eq nvak' this] True
      show ?thesis by (auto intro: fallback)
    next
      case False
      from getNextTuple_eq_exhausted_keys [OF eq nvak' False] show ?thesis by (rule ended)
    qed
  qed
next
  case False
  then have ne: "lookupType \<noteq> INDEX_LOOKUP_TYPE_EQ"
      "lookupType \<noteq> INDEX_LOOKUP_TYPE_GEO_CONTAINS" by simp_all
  obtain t c where "nextValue index (cursor s) = (t, c)"
    by (cases "nextValue index (cursor s)")
  from getNextTuple_other [OF ne this] show ?thesis by (rule other)
qed

text \<open>
  C4: a null tuple from the cursor is the end of the scan, not an error. When every
  call the step made on the cursor returned the null tuple, the step returns false,
  with the null tuple in the output slot; and it made one of three call sequences,
  in each of which a primitive is called at most once (no retry). The step has no
  other way to finish: its result is always a boolean and a state.
\<close>

theorem getNextTuple_null_is_exhaustion:
  assumes "\<forall>call \<in> set (new_calls s (snd (getNextTuple lookupType index n s))).
             isNullTuple (returned call)"
  shows "fst (getNextTuple lookupType index n s) = False
       \<and> isNullTuple (tuple (snd (getNextTuple lookupType index n s)))
       \<and> new_calls s (snd (getNextTuple lookupType index n s))
           \<in> {[CallNextValueAtKey None],
              [CallNextValueAtKey None, CallNextValue None],
              [CallNextValue None]}"
proof (cases rule: getNextTuple_shapes [of lookupType index n s])
  case (found r c)
  with assms show ?thesis by (simp add: isNullTuple_def)
next
  case (ended c)
  then show ?thesis by (simp add: isNullTuple_def)
next
  case (fallback t c)
  with assms show ?thesis by (simp add: isNullTuple_def)
next
  case (other t c)
  with assms show ?thesis by (simp add: isNullTuple_def)
qed

theorem getNextTuple_null_is_exhaustion_witness:
  "(\<forall>call \<in> set (new_calls
        (start_scan \<lparr>remaining = [], match = None\<rparr>
           :: (int \<times> nat, (int, int \<times> nat) IndexCursor) scan_state)
        (snd (getNextTuple INDEX_LOOKUP_TYPE_GT model_index 1
           (start_scan \<lparr>remaining = [], match = None\<rparr>)))).
      isNullTuple (returned call)) = True
   \<and> getNextTuple INDEX_LOOKUP_TYPE_GT model_index 1
        (start_scan \<lparr>remaining = [], match = None\<rparr>
           :: (int \<times> nat, (int, int \<times> nat) IndexCursor) scan_state)
       = (False, \<lparr>tuple = None, cursor = \<lparr>remaining = [], match = None\<rparr>,
                  calls = [CallNextValue None]\<rparr>)"
  using getNextTuple_null_is_exhaustion
    [where lookupType = INDEX_LOOKUP_TYPE_GT and index = model_index and n = 1
       and s = "start_scan \<lparr>remaining = [], match = None\<rparr>
                  :: (int \<times> nat, (int, int \<times> nat) IndexCursor) scan_state"]
  by (simp add: start_scan_def model_nextValue_def isNullTuple_def getNextTuple_def
        assign_nextValue_def new_calls_def)

text \<open>
  C9: \<^verbatim>\<open>getNextTuple\<close> does not tell geo-contains from equality: for every index,
  cursor state, output slot and active-key count, the call with
  \<^verbatim>\<open>INDEX_LOOKUP_TYPE_GEO_CONTAINS\<close> returns the same boolean and leaves the same output
  slot, cursor and record of calls as the call with \<^verbatim>\<open>INDEX_LOOKUP_TYPE_EQ\<close>.
\<close>

theorem getNextTuple_geo_contains_as_eq:
  "getNextTuple INDEX_LOOKUP_TYPE_GEO_CONTAINS index n s
     = getNextTuple INDEX_LOOKUP_TYPE_EQ index n s"
  by (simp add: getNextTuple_def Let_def)

text \<open>
  C10: on every path, \<^verbatim>\<open>getNextTuple\<close> returns true if and only if the tuple in the
  output slot after the call is non-null.
\<close>

theorem getNextTuple_result_agrees_with_slot:
  "fst (getNextTuple lookupType index n s)
     = (\<not> isNullTuple (tuple (snd (getNextTuple lookupType index n s))))"
  by (cases rule: getNextTuple_shapes [of lookupType index n s])
    (simp_all add: isNullTuple_def)

text \<open>
  C5: on the list model of an index on column A with rows A = [1, 1, 2, 3]:
  successive calls of \<^verbatim>\<open>getNextTuple\<close> with an equality lookup, one active key and the
  cursor positioned at key 1 yield the two rows with A = 1, in index order, and then
  false, and false again on a further call (no row with A = 2); with a greater-than
  lookup, one active key and the cursor positioned after key 1 they yield the row
  with A = 2, then the row with A = 3, and then false.
\<close>

theorem getNextTuple_example_index:
  "getNextTuple_outcomes 4 INDEX_LOOKUP_TYPE_EQ model_index 1
       (start_scan (moveToKey example_entries 1))
     = [(True, Some (1, 0)), (True, Some (1, 1)), (False, None), (False, None)]
   \<and> getNextTuple_outcomes 3 INDEX_LOOKUP_TYPE_GT model_index 1
       (start_scan (moveToGreaterThanKey example_entries 1))
     = [(True, Some (2, 2)), (True, Some (3, 3)), (False, None)]"
  by (simp add: eval_nat_numeral start_scan_def example_moveToKey
        example_moveToGreaterThanKey getNextTuple_def Let_def assign_nextValueAtKey_def
        assign_nextValue_def model_nextValueAtKey_def model_nextValue_def isNullTuple_def)

section \<open>Properties of the scan loop\<close>

text \<open>Rows put before a result.\<close>

lemma emit_before_Nil [simp]: "emit_before [] res = res"
  by (simp add: emit_before_def split: prod.split)

lemma emit_before_append: "emit_before (xs @ ys) res = emit_before xs (emit_before ys res)"
  by (simp add: emit_before_def split: prod.split)

lemma fst_emit_before [simp]: "fst (emit_before xs res) = xs @ fst res"
  by (simp add: emit_before_def split: prod.split)

lemma snd_emit_before [simp]: "snd (emit_before xs res) = snd res"
  by (simp add: emit_before_def split: prod.split)

lemma emit_before_tuple [simp]: "emit_before xs (rows, rest) = (xs @ rows, rest)"
  by (simp add: emit_before_def)

text \<open>
  One round of the loop, given the result of its \<^verbatim>\<open>getNextTuple\<close> call.
\<close>

lemma scan_loop_unfold:
  assumes "getNextTuple (m_lookupType ex) model_index (m_numOfSearchkeys ex) s = (found, s')"
  shows "scan_loop ex counter pf s =
     (if \<not> isUnderLimit pf then ([], LimitReached, pf, s)
      else if \<not> found then ([], Exhausted, pf, s')
      else if suspend_now ex counter then ([], Suspended, pf, s)
      else (case tuple s' of
              None \<Rightarrow> ([], Exhausted, pf, s')
            | Some row \<Rightarrow>
                emit_before (fst (pipeline_process ex pf row))
                  (scan_loop ex (Suc counter) (snd (pipeline_process ex pf row)) s')))"
  by (subst scan_loop.simps) (simp add: assms split: prod.split option.split)

text \<open>
  The per-invocation counter matters to a suspendable executor only.
\<close>

lemma scan_loop_counter_irrelevant:
  "\<not> m_suspendable ex \<Longrightarrow> scan_loop ex c pf s = scan_loop ex c' pf s"
proof (induction ex c pf s arbitrary: c' rule: scan_loop.induct)
  case (1 ex counter pf s)
  obtain found s' where g:
    "getNextTuple (m_lookupType ex) model_index (m_numOfSearchkeys ex) s = (found, s')"
    by (cases "getNextTuple (m_lookupType ex) model_index (m_numOfSearchkeys ex) s")
  have ns: "\<not> suspend_now ex k" for k
    using "1.prems" by (simp add: suspend_now_def p_isSuspendable_def)
  show ?case
  proof (cases "isUnderLimit pf \<and> found")
    case False
    then show ?thesis
      by (auto simp: scan_loop_unfold [OF g])
  next
    case True
    show ?thesis
    proof (cases "tuple s'")
      case None
      then show ?thesis by (simp add: scan_loop_unfold [OF g] ns)
    next
      case (Some row)
      obtain out pf' where pp: "pipeline_process ex pf row = (out, pf')"
        by (cases "pipeline_process ex pf row")
      have "scan_loop ex (Suc counter) pf' s' = scan_loop ex (Suc c') pf' s'"
        using True g ns Some pp "1.prems"
        by (intro "1.IH" [where c' = "Suc c'"]) auto
      then show ?thesis
        using True Some pp by (simp add: scan_loop_unfold [OF g] ns)
    qed
  qed
qed

text \<open>
  The refinement step: a non-suspendable executor yields what a suspendable one with
  the same lookup type, key count and projection yields, followed, when that one
  stopped as suspended, by what the non-suspendable executor yields from the state the
  suspended one left.
\<close>

lemma pipeline_process_cong:
  "m_projectionNode ex1 = m_projectionNode ex2
     \<Longrightarrow> pipeline_process ex1 pf row = pipeline_process ex2 pf row"
  by (simp add: pipeline_process_def project_def)

lemma scan_loop_resume:
  assumes lt: "m_lookupType exN = m_lookupType exS"
    and nk: "m_numOfSearchkeys exN = m_numOfSearchkeys exS"
    and pr: "m_projectionNode exN = m_projectionNode exS"
    and ns: "\<not> m_suspendable exN"
  shows "scan_loop exN c pf s =
     (case scan_loop exS c pf s of
        (rows, status, pf', s') \<Rightarrow>
          if status = Suspended then emit_before rows (scan_loop exN 0 pf' s')
          else (rows, status, pf', s'))"
  using assms
proof (induction exS c pf s rule: scan_loop.induct)
  case (1 exS counter pf s)
  obtain found s' where g:
    "getNextTuple (m_lookupType exS) model_index (m_numOfSearchkeys exS) s = (found, s')"
    by (cases "getNextTuple (m_lookupType exS) model_index (m_numOfSearchkeys exS) s")
  then have gN:
    "getNextTuple (m_lookupType exN) model_index (m_numOfSearchkeys exN) s = (found, s')"
    using "1.prems" by simp
  have nsN: "\<not> suspend_now exN k" for k
    using "1.prems" by (simp add: suspend_now_def p_isSuspendable_def)
  show ?case
  proof (cases "isUnderLimit pf \<and> found")
    case False
    then show ?thesis
      by (auto simp: scan_loop_unfold [OF g] scan_loop_unfold [OF gN])
  next
    case True
    show ?thesis
    proof (cases "suspend_now exS counter")
      case susp: True
      have "scan_loop exN counter pf s = scan_loop exN 0 pf s"
        using "1.prems" by (intro scan_loop_counter_irrelevant) simp
      with True susp show ?thesis
        by (simp add: scan_loop_unfold [OF g])
    next
      case nosusp: False
      show ?thesis
      proof (cases "tuple s'")
        case None
        with True nosusp show ?thesis
          by (simp add: scan_loop_unfold [OF g] scan_loop_unfold [OF gN] nsN)
      next
        case (Some row)
        obtain out pf' where pp: "pipeline_process exS pf row = (out, pf')"
          by (cases "pipeline_process exS pf row")
        then have ppN: "pipeline_process exN pf row = (out, pf')"
          using "1.prems" pipeline_process_cong [of exN exS pf row] by simp
        have IH: "scan_loop exN (Suc counter) pf' s' =
          (case scan_loop exS (Suc counter) pf' s' of
             (rows, status, pf'', s'') \<Rightarrow>
               if status = Suspended then emit_before rows (scan_loop exN 0 pf'' s'')
               else (rows, status, pf'', s''))"
          using True g nosusp Some pp "1.prems"
          by (intro "1.IH") auto
        obtain rows status pf'' s'' where
          rec: "scan_loop exS (Suc counter) pf' s' = (rows, status, pf'', s'')"
          by (cases "scan_loop exS (Suc counter) pf' s'") auto
        show ?thesis
          using True nosusp Some pp ppN IH rec
          by (simp add: scan_loop_unfold [OF g] scan_loop_unfold [OF gN] nsN
                emit_before_append)
      qed
    qed
  qed
qed

text \<open>
  On the list model no step moves the cursor backwards, and an invocation that stops as
  suspended under a positive limit has moved it forwards.
\<close>

lemma getNextTuple_model_monotone:
  assumes "getNextTuple lookupType model_index n s = (found, s')"
  shows "length (remaining (cursor s')) \<le> length (remaining (cursor s))"
  using assms
  by (auto simp: getNextTuple_def Let_def assign_nextValueAtKey_def assign_nextValue_def
        model_nextValueAtKey_def model_nextValue_def isNullTuple_def
      split: if_splits list.splits)

lemma scan_loop_monotone:
  "scan_loop ex c pf s = (rows, status, pf', s')
     \<Longrightarrow> length (remaining (cursor s')) \<le> length (remaining (cursor s))"
proof (induction ex c pf s arbitrary: rows status pf' s' rule: scan_loop.induct)
  case (1 ex counter pf s)
  obtain found s1 where g:
    "getNextTuple (m_lookupType ex) model_index (m_numOfSearchkeys ex) s = (found, s1)"
    by (cases "getNextTuple (m_lookupType ex) model_index (m_numOfSearchkeys ex) s")
  note mono = getNextTuple_model_monotone [OF g]
  show ?case
  proof (cases "isUnderLimit pf \<and> found \<and> \<not> suspend_now ex counter")
    case False
    then show ?thesis
      using "1.prems" mono by (auto simp: scan_loop_unfold [OF g] split: if_splits)
  next
    case True
    show ?thesis
    proof (cases "tuple s1")
      case None
      with True "1.prems" mono show ?thesis
        by (simp add: scan_loop_unfold [OF g])
    next
      case (Some row)
      obtain out pf1 where pp: "pipeline_process ex pf row = (out, pf1)"
        by (cases "pipeline_process ex pf row")
      obtain rows2 where
        rec: "scan_loop ex (Suc counter) pf1 s1 = (rows2, status, pf', s')"
        using True Some pp "1.prems"
        by (cases "scan_loop ex (Suc counter) pf1 s1") (simp add: scan_loop_unfold [OF g])
      have "length (remaining (cursor s')) \<le> length (remaining (cursor s1))"
        using True g Some pp rec by (intro "1.IH" [where rows = rows2]) auto
      with mono show ?thesis by simp
    qed
  qed
qed

lemma scan_loop_suspended_progress:
  assumes run: "scan_loop ex c pf s = (rows, Suspended, pf', s')"
    and room: "int c < m_tupleLimitForSuspendableFragments ex"
  shows "length (remaining (cursor s')) < length (remaining (cursor s))"
proof -
  obtain found s1 where g:
    "getNextTuple (m_lookupType ex) model_index (m_numOfSearchkeys ex) s = (found, s1)"
    by (cases "getNextTuple (m_lookupType ex) model_index (m_numOfSearchkeys ex) s")
  have nosusp: "\<not> suspend_now ex c"
    using room by (simp add: suspend_now_def)
  from run nosusp have cont: "isUnderLimit pf" "found"
    by (auto simp: scan_loop_unfold [OF g] split: if_splits)
  from run nosusp cont obtain row where row: "tuple s1 = Some row"
    by (cases "tuple s1") (auto simp: scan_loop_unfold [OF g])
  obtain out pf1 where pp: "pipeline_process ex pf row = (out, pf1)"
    by (cases "pipeline_process ex pf row")
  obtain rows2 where rec: "scan_loop ex (Suc c) pf1 s1 = (rows2, Suspended, pf', s')"
    using run nosusp cont row pp
    by (cases "scan_loop ex (Suc c) pf1 s1") (simp add: scan_loop_unfold [OF g])
  have "length (remaining (cursor s1)) < length (remaining (cursor s))"
    using g cont by (auto dest: getNextTuple_model_progress)
  with scan_loop_monotone [OF rec] show ?thesis by simp
qed

text \<open>
  A sequence of invocations refines the full scan, and reaches a final status when
  every limit is positive and there are more limits than entries ahead of the cursor.
\<close>

lemma resume_invocations_refines:
  "p_execute (ex\<lparr>m_suspendable := False\<rparr>) pf s =
     (case resume_invocations ex limits pf s of
        (rows, status, pf', s') \<Rightarrow>
          if status = Suspended
          then emit_before rows (p_execute (ex\<lparr>m_suspendable := False\<rparr>) pf' s')
          else (rows, status, pf', s'))"
proof (induction limits arbitrary: pf s)
  case Nil
  show ?case by simp
next
  case (Cons l ls)
  let ?exS = "ex\<lparr>m_suspendable := True, m_tupleLimitForSuspendableFragments := l\<rparr>"
  let ?exN = "ex\<lparr>m_suspendable := False\<rparr>"
  obtain rows status pf' s' where run: "scan_loop ?exS 0 pf s = (rows, status, pf', s')"
    by (cases "scan_loop ?exS 0 pf s") auto
  have full: "scan_loop ?exN 0 pf s =
      (if status = Suspended then emit_before rows (scan_loop ?exN 0 pf' s')
       else (rows, status, pf', s'))"
    using scan_loop_resume [of ?exN ?exS 0 pf s] run by simp
  show ?case
  proof (cases "status = Suspended")
    case False
    with run full show ?thesis by (simp add: p_execute_def)
  next
    case True
    obtain rows2 status2 pf2 s2 where
      rest: "resume_invocations ex ls pf' s' = (rows2, status2, pf2, s2)"
      by (cases "resume_invocations ex ls pf' s'") auto
    from Cons.IH [of pf' s'] rest
    have "scan_loop ?exN 0 pf' s' =
        (if status2 = Suspended then emit_before rows2 (scan_loop ?exN 0 pf2 s2)
         else (rows2, status2, pf2, s2))"
      by (simp add: p_execute_def)
    with run full True rest show ?thesis
      by (simp add: p_execute_def emit_before_append)
  qed
qed

lemma resume_invocations_completes:
  assumes "\<forall>l \<in> set limits. 0 < l"
    and "length (remaining (cursor s)) < length limits"
  shows "fst (snd (resume_invocations ex limits pf s)) \<noteq> Suspended"
  using assms
proof (induction limits arbitrary: pf s)
  case Nil
  then show ?case by simp
next
  case (Cons l ls)
  let ?exS = "ex\<lparr>m_suspendable := True, m_tupleLimitForSuspendableFragments := l\<rparr>"
  obtain rows status pf' s' where run: "scan_loop ?exS 0 pf s = (rows, status, pf', s')"
    by (cases "scan_loop ?exS 0 pf s") auto
  show ?case
  proof (cases "status = Suspended")
    case False
    with run show ?thesis by (simp add: p_execute_def)
  next
    case True
    from Cons.prems have "0 < l" by simp
    with run True have "length (remaining (cursor s')) < length (remaining (cursor s))"
      by (intro scan_loop_suspended_progress [of ?exS 0 pf s rows pf' s']) simp_all
    with Cons.prems have "length (remaining (cursor s')) < length ls" by simp
    with Cons.prems have "fst (snd (resume_invocations ex ls pf' s')) \<noteq> Suspended"
      by (intro Cons.IH) simp_all
    with run True show ?thesis
      by (simp add: p_execute_def)
  qed
qed

text \<open>
  The rows of a non-suspended scan are the matches the postfilter lets through.
\<close>

lemma candidate_rows_unfold:
  assumes "getNextTuple lookupType model_index n s = (found, s')"
  shows "candidate_rows lookupType n s =
     (if \<not> found then []
      else (case tuple s' of None \<Rightarrow> [] | Some row \<Rightarrow> row # candidate_rows lookupType n s'))"
  by (subst candidate_rows.simps) (simp add: assms)

lemma postfilter_select_Nil [simp]: "postfilter_select pf [] = []"
  by (simp add: postfilter_select_def split: option.split)

lemma postfilter_select_over_limit:
  "\<not> isUnderLimit pf \<Longrightarrow> postfilter_select pf rows = []"
  by (auto simp: postfilter_select_def isUnderLimit_def split: option.splits)

lemma pipeline_process_select:
  assumes "isUnderLimit pf" and "pipeline_process ex pf row = (out, pf')"
  shows "map (project ex) (postfilter_select pf (row # rows))
           = out @ map (project ex) (postfilter_select pf' rows)"
  using assms
  by (auto simp: pipeline_process_def postfilter_eval_def postfilter_select_def
        isUnderLimit_def Let_def drop_Cons' take_Cons' Suc_diff_Suc
      split: option.splits if_splits)

lemma scan_loop_rows:
  assumes "\<not> m_suspendable ex"
  shows "fst (scan_loop ex c pf s) =
     map (project ex)
       (postfilter_select pf (candidate_rows (m_lookupType ex) (m_numOfSearchkeys ex) s))"
  using assms
proof (induction ex c pf s rule: scan_loop.induct)
  case (1 ex counter pf s)
  obtain found s' where g:
    "getNextTuple (m_lookupType ex) model_index (m_numOfSearchkeys ex) s = (found, s')"
    by (cases "getNextTuple (m_lookupType ex) model_index (m_numOfSearchkeys ex) s")
  have ns: "\<not> suspend_now ex k" for k
    using "1.prems" by (simp add: suspend_now_def p_isSuspendable_def)
  show ?case
  proof (cases "isUnderLimit pf")
    case False
    then show ?thesis
      by (simp add: scan_loop_unfold [OF g] postfilter_select_over_limit)
  next
    case under: True
    show ?thesis
    proof (cases "found")
      case False
      with under show ?thesis
        by (simp add: scan_loop_unfold [OF g] candidate_rows_unfold [OF g])
    next
      case True
      show ?thesis
      proof (cases "tuple s'")
        case None
        with under True show ?thesis
          by (simp add: scan_loop_unfold [OF g] candidate_rows_unfold [OF g] ns)
      next
        case (Some row)
        obtain out pf' where pp: "pipeline_process ex pf row = (out, pf')"
          by (cases "pipeline_process ex pf row")
        have IH: "fst (scan_loop ex (Suc counter) pf' s') =
            map (project ex)
              (postfilter_select pf'
                 (candidate_rows (m_lookupType ex) (m_numOfSearchkeys ex) s'))"
          using under True g ns Some pp "1.prems" by (intro "1.IH") auto
        show ?thesis
          using under True Some pp IH pipeline_process_select [OF under pp]
          by (simp add: scan_loop_unfold [OF g] candidate_rows_unfold [OF g] ns)
      qed
    qed
  qed
qed

text \<open>
  Where a scan with a limit ends: as limit-reached, the cursor exactly the needed
  number of matches further on, when the matches suffice; as exhausted otherwise.
\<close>

lemma pipeline_process_needed:
  assumes "isUnderLimit pf" and "pf_limit pf = Some l"
    and "pipeline_process ex pf row = (out, pf')"
  shows "pf_limit pf' = Some l \<and> rows_needed pf l = Suc (rows_needed pf' l)"
  using assms
  by (auto simp: pipeline_process_def postfilter_eval_def isUnderLimit_def rows_needed_def
        Let_def split: if_splits)

lemma scan_loop_limit_position:
  assumes "\<not> m_suspendable ex" and "pf_limit pf = Some l"
    and "scan_loop ex c pf s = (rows, status, pf', s')"
  shows "(rows_needed pf l \<le> length (candidate_rows (m_lookupType ex) (m_numOfSearchkeys ex) s)
            \<longrightarrow> status = LimitReached
               \<and> candidate_rows (m_lookupType ex) (m_numOfSearchkeys ex) s'
                   = drop (rows_needed pf l)
                       (candidate_rows (m_lookupType ex) (m_numOfSearchkeys ex) s))
       \<and> (length (candidate_rows (m_lookupType ex) (m_numOfSearchkeys ex) s) < rows_needed pf l
            \<longrightarrow> status = Exhausted)"
  using assms
proof (induction ex c pf s arbitrary: rows status pf' s' rule: scan_loop.induct)
  case (1 ex counter pf s)
  obtain found s1 where g:
    "getNextTuple (m_lookupType ex) model_index (m_numOfSearchkeys ex) s = (found, s1)"
    by (cases "getNextTuple (m_lookupType ex) model_index (m_numOfSearchkeys ex) s")
  have ns: "\<not> suspend_now ex k" for k
    using "1.prems" by (simp add: suspend_now_def p_isSuspendable_def)
  show ?case
  proof (cases "isUnderLimit pf")
    case False
    then have "rows_needed pf l = 0"
      using "1.prems" by (simp add: isUnderLimit_def rows_needed_def)
    with False "1.prems" show ?thesis
      by (simp add: scan_loop_unfold [OF g])
  next
    case under: True
    then have pos: "0 < rows_needed pf l"
      using "1.prems" by (simp add: isUnderLimit_def rows_needed_def)
    show ?thesis
    proof (cases "found")
      case False
      with under pos "1.prems" show ?thesis
        by (simp add: scan_loop_unfold [OF g] candidate_rows_unfold [OF g])
    next
      case True
      show ?thesis
      proof (cases "tuple s1")
        case None
        with under True pos "1.prems" show ?thesis
          by (simp add: scan_loop_unfold [OF g] candidate_rows_unfold [OF g] ns)
      next
        case (Some row)
        obtain out pf1 where pp: "pipeline_process ex pf row = (out, pf1)"
          by (cases "pipeline_process ex pf row")
        from pipeline_process_needed [OF under "1.prems"(2) pp]
        have lim1: "pf_limit pf1 = Some l"
          and need: "rows_needed pf l = Suc (rows_needed pf1 l)" by simp_all
        obtain rows2 where
          rec: "scan_loop ex (Suc counter) pf1 s1 = (rows2, status, pf', s')"
          using under True Some pp "1.prems" ns
          by (cases "scan_loop ex (Suc counter) pf1 s1") (simp add: scan_loop_unfold [OF g])
        have IH: "(rows_needed pf1 l
                \<le> length (candidate_rows (m_lookupType ex) (m_numOfSearchkeys ex) s1)
            \<longrightarrow> status = LimitReached
               \<and> candidate_rows (m_lookupType ex) (m_numOfSearchkeys ex) s'
                   = drop (rows_needed pf1 l)
                       (candidate_rows (m_lookupType ex) (m_numOfSearchkeys ex) s1))
          \<and> (length (candidate_rows (m_lookupType ex) (m_numOfSearchkeys ex) s1)
                < rows_needed pf1 l
            \<longrightarrow> status = Exhausted)"
          using under True g ns Some pp lim1 rec "1.prems"(1)
          by (intro "1.IH" [where rows = rows2]) auto
        have cr: "candidate_rows (m_lookupType ex) (m_numOfSearchkeys ex) s
            = row # candidate_rows (m_lookupType ex) (m_numOfSearchkeys ex) s1"
          using True Some by (simp add: candidate_rows_unfold [OF g])
        from IH show ?thesis
          by (simp add: cr need)
      qed
    qed
  qed
qed

text \<open>
  A non-suspendable executor never stops as suspended, whatever its row limit.
\<close>

lemma scan_loop_never_suspended:
  assumes "\<not> m_suspendable ex"
  shows "fst (snd (scan_loop ex c pf s)) \<noteq> Suspended"
  using assms
proof (induction ex c pf s rule: scan_loop.induct)
  case (1 ex counter pf s)
  obtain found s' where g:
    "getNextTuple (m_lookupType ex) model_index (m_numOfSearchkeys ex) s = (found, s')"
    by (cases "getNextTuple (m_lookupType ex) model_index (m_numOfSearchkeys ex) s")
  have ns: "\<not> suspend_now ex k" for k
    using "1.prems" by (simp add: suspend_now_def p_isSuspendable_def)
  show ?case
  proof (cases "isUnderLimit pf \<and> found")
    case False
    then show ?thesis by (auto simp: scan_loop_unfold [OF g])
  next
    case True
    show ?thesis
    proof (cases "tuple s'")
      case None
      with True show ?thesis by (simp add: scan_loop_unfold [OF g] ns)
    next
      case (Some row)
      obtain out pf' where pp: "pipeline_process ex pf row = (out, pf')"
        by (cases "pipeline_process ex pf row")
      have "fst (snd (scan_loop ex (Suc counter) pf' s')) \<noteq> Suspended"
        using True g ns Some pp "1.prems" by (intro "1.IH") auto
      with True Some pp show ?thesis
        by (simp add: scan_loop_unfold [OF g] ns)
    qed
  qed
qed

lemma scan_loop_limit_irrelevant:
  assumes "\<not> m_suspendable ex"
  shows "scan_loop (ex\<lparr>m_tupleLimitForSuspendableFragments := l\<rparr>) c pf s = scan_loop ex c pf s"
proof -
  let ?ex' = "ex\<lparr>m_tupleLimitForSuspendableFragments := l\<rparr>"
  have "fst (snd (scan_loop ex c pf s)) \<noteq> Suspended"
    using assms by (rule scan_loop_never_suspended)
  moreover have "scan_loop ?ex' c pf s =
     (case scan_loop ex c pf s of
        (rows, status, pf', s') \<Rightarrow>
          if status = Suspended then emit_before rows (scan_loop ?ex' 0 pf' s')
          else (rows, status, pf', s'))"
    using assms by (intro scan_loop_resume) simp_all
  ultimately show ?thesis
    by (cases "scan_loop ex c pf s") auto
qed

lemma project_not_suspendable [simp]:
  "project (ex\<lparr>m_suspendable := b\<rparr>) = project ex"
  by (rule ext) (simp add: project_def)

text \<open>
  Scans of the example index, evaluated. The last one is the suspension example of the
  specification: with a limit of two rows per invocation over four matching rows, the
  first invocation emits two rows and stops as suspended, the second emits the other
  two and ends as exhausted.
\<close>

lemmas example_eval =
  p_execute_def example_executor_def new_postfilter_def start_scan_def
  moveToEnd_def example_entries_def scan_loop.simps isUnderLimit_def getNextTuple_def
  Let_def assign_nextValue_def assign_nextValueAtKey_def model_nextValue_def
  model_nextValueAtKey_def isNullTuple_def suspend_now_def
  p_isSuspendable_def pipeline_process_def postfilter_eval_def project_def

lemma example_full_scan:
  "p_execute (example_executor\<lparr>m_suspendable := False\<rparr>) (new_postfilter 1 (Some 2))
         (start_scan (moveToEnd example_entries))
   = ([(1, 1), (2, 2)], LimitReached,
      \<lparr>pf_offset = 1, pf_limit = Some 2, pf_skipped = 1, pf_kept = 2\<rparr>,
      \<lparr>tuple = Some (2, 2), cursor = \<lparr>remaining = [(3, (3, 3))], match = None\<rparr>,
       calls = [CallNextValue (Some (1, 0)), CallNextValue (Some (1, 1)),
                CallNextValue (Some (2, 2))]\<rparr>)"
  by (simp add: example_eval)

lemma example_candidates:
  "candidate_rows INDEX_LOOKUP_TYPE_GTE 0 (start_scan (moveToEnd example_entries))
     = [(1, 0), (1, 1), (2, 2), (3, 3)]"
  by (simp add: start_scan_def moveToEnd_def example_entries_def candidate_rows.simps
      getNextTuple_def Let_def assign_nextValue_def model_nextValue_def isNullTuple_def)

lemma example_candidates_executor:
  "candidate_rows (m_lookupType example_executor) (m_numOfSearchkeys example_executor)
       (start_scan (moveToEnd example_entries))
     = [(1, 0), (1, 1), (2, 2), (3, 3)]"
  using example_candidates by (simp add: example_executor_def)

lemma example_suspension:
  "p_execute example_executor (new_postfilter 0 None) (start_scan (moveToEnd example_entries))
     = ([(1, 0), (1, 1)], Suspended,
        \<lparr>pf_offset = 0, pf_limit = None, pf_skipped = 0, pf_kept = 2\<rparr>,
        \<lparr>tuple = Some (1, 1),
         cursor = \<lparr>remaining = [(2, (2, 2)), (3, (3, 3))], match = None\<rparr>,
         calls = [CallNextValue (Some (1, 0)), CallNextValue (Some (1, 1))]\<rparr>)
   \<and> p_execute example_executor
        \<lparr>pf_offset = 0, pf_limit = None, pf_skipped = 0, pf_kept = 2\<rparr>
        \<lparr>tuple = Some (1, 1),
         cursor = \<lparr>remaining = [(2, (2, 2)), (3, (3, 3))], match = None\<rparr>,
         calls = [CallNextValue (Some (1, 0)), CallNextValue (Some (1, 1))]\<rparr>
     = ([(2, 2), (3, 3)], Exhausted,
        \<lparr>pf_offset = 0, pf_limit = None, pf_skipped = 0, pf_kept = 4\<rparr>,
        \<lparr>tuple = None, cursor = \<lparr>remaining = [], match = None\<rparr>,
         calls = [CallNextValue (Some (1, 0)), CallNextValue (Some (1, 1)),
                  CallNextValue (Some (2, 2)), CallNextValue (Some (3, 3)),
                  CallNextValue None]\<rparr>)"
  by (simp add: example_eval)

lemma resume_invocations_full:
  assumes "\<forall>l \<in> set limits. 0 < l"
    and "length (remaining (cursor s)) < length limits"
  shows "resume_invocations ex limits pf s = p_execute (ex\<lparr>m_suspendable := False\<rparr>) pf s"
proof -
  have "fst (snd (resume_invocations ex limits pf s)) \<noteq> Suspended"
    using assms by (rule resume_invocations_completes)
  with resume_invocations_refines [of ex pf s limits] show ?thesis
    by (cases "resume_invocations ex limits pf s") auto
qed

lemma example_resumed_scan:
  "p_execute (example_executor\<lparr>m_suspendable := False\<rparr>) (new_postfilter 0 None)
       (start_scan (moveToEnd example_entries))
     = ([(1, 0), (1, 1), (2, 2), (3, 3)], Exhausted,
        \<lparr>pf_offset = 0, pf_limit = None, pf_skipped = 0, pf_kept = 4\<rparr>,
        \<lparr>tuple = None, cursor = \<lparr>remaining = [], match = None\<rparr>,
         calls = [CallNextValue (Some (1, 0)), CallNextValue (Some (1, 1)),
                  CallNextValue (Some (2, 2)), CallNextValue (Some (3, 3)),
                  CallNextValue None]\<rparr>)"
  by (simp add: example_eval)

text \<open>
  C6: suspension is transparent. For every executor configuration (every lookup type),
  every index content and cursor position, every postfilter state and every list of
  per-invocation row limits: the full, non-suspended scan yields the rows of the
  suspend/resume invocations, concatenated, followed by what the full scan yields from
  the postfilter state and scan state the last invocation left, when that one was
  still suspended; otherwise it yields exactly the concatenated rows and ends with the
  same status, postfilter state, cursor and record of cursor calls. When every limit
  is positive and there are more limits than entries ahead of the cursor, the
  invocations do reach a final status, so the two results are equal. Each invocation
  starts from the state the previous one left and positions no cursor.
\<close>

theorem suspension_transparent:
  "p_execute (ex\<lparr>m_suspendable := False\<rparr>) pf s =
     (case resume_invocations ex limits pf s of
        (rows, status, pf', s') \<Rightarrow>
          if status = Suspended
          then emit_before rows (p_execute (ex\<lparr>m_suspendable := False\<rparr>) pf' s')
          else (rows, status, pf', s'))
   \<and> ((\<forall>l \<in> set limits. 0 < l) \<and> length (remaining (cursor s)) < length limits
        \<longrightarrow> resume_invocations ex limits pf s
              = p_execute (ex\<lparr>m_suspendable := False\<rparr>) pf s)"
  using resume_invocations_refines [of ex pf s limits]
    resume_invocations_full [of limits s ex pf]
  by blast

theorem suspension_transparent_witness:
  "length (remaining (cursor (start_scan (moveToEnd example_entries)
       :: (int, int \<times> nat) model_state)))
     < length [2, 1, 3, 1, 1 :: int]
   \<and> resume_invocations example_executor [2, 1, 3, 1, 1] (new_postfilter 0 None)
       (start_scan (moveToEnd example_entries))
     = ([(1, 0), (1, 1), (2, 2), (3, 3)], Exhausted,
        \<lparr>pf_offset = 0, pf_limit = None, pf_skipped = 0, pf_kept = 4\<rparr>,
        \<lparr>tuple = None, cursor = \<lparr>remaining = [], match = None\<rparr>,
         calls = [CallNextValue (Some (1, 0)), CallNextValue (Some (1, 1)),
                  CallNextValue (Some (2, 2)), CallNextValue (Some (3, 3)),
                  CallNextValue None]\<rparr>)"
proof -
  have pos: "\<forall>l \<in> set [2, 1, 3, 1, 1 :: int]. 0 < l" by simp
  have enough: "length (remaining (cursor (start_scan (moveToEnd example_entries)
       :: (int, int \<times> nat) model_state))) < length [2, 1, 3, 1, 1 :: int]"
    by (simp add: start_scan_def moveToEnd_def example_entries_def)
  from suspension_transparent [of example_executor "new_postfilter 0 None"
      "start_scan (moveToEnd example_entries)" "[2, 1, 3, 1, 1]"] pos enough
  have "resume_invocations example_executor [2, 1, 3, 1, 1] (new_postfilter 0 None)
            (start_scan (moveToEnd example_entries))
          = p_execute (example_executor\<lparr>m_suspendable := False\<rparr>) (new_postfilter 0 None)
              (start_scan (moveToEnd example_entries))"
    by blast
  with enough show ?thesis by (simp only: example_resumed_scan simp_thms)
qed

text \<open>
  C7: the offset/limit postfilter. A logical scan with offset \<open>ofs\<close> and limit \<open>lim\<close>
  over the match sequence \<open>matches\<close> emits the (projected) matches from position \<open>ofs\<close>
  on, at most \<open>lim\<close> of them, in order: \<open>max 0 (min lim (length matches - ofs))\<close> rows,
  the first \<open>ofs\<close> matches skipped. The scan ends as limit-reached when the limit is
  zero or the matches suffice, and as exhausted otherwise; when a positive limit is
  reached, the cursor is left exactly \<open>ofs + lim\<close> matches further on. Run as
  suspend/resume invocations with positive limits (enough of them), the scan emits the
  same rows. The model being a function, equal inputs give equal results.
\<close>

theorem postfilter_offset_limit:
  assumes "p_execute (ex\<lparr>m_suspendable := False\<rparr>) (new_postfilter ofs (Some lim)) s
             = (rows, status, pf', s')"
    and "matches = candidate_rows (m_lookupType ex) (m_numOfSearchkeys ex) s"
  shows "rows = map (project ex) (take lim (drop ofs matches))
       \<and> int (length rows) = max 0 (min (int lim) (int (length matches) - int ofs))
       \<and> status = (if lim = 0 \<or> ofs + lim \<le> length matches then LimitReached else Exhausted)
       \<and> (0 < lim \<and> ofs + lim \<le> length matches \<longrightarrow>
            candidate_rows (m_lookupType ex) (m_numOfSearchkeys ex) s'
              = drop (ofs + lim) matches)
       \<and> ((\<forall>l \<in> set limits. 0 < l) \<and> length (remaining (cursor s)) < length limits \<longrightarrow>
            fst (resume_invocations ex limits (new_postfilter ofs (Some lim)) s) = rows)"
proof -
  let ?ex = "ex\<lparr>m_suspendable := False\<rparr>"
  let ?pf = "new_postfilter ofs (Some lim)"
  have run: "scan_loop ?ex 0 ?pf s = (rows, status, pf', s')"
    using assms(1) by (simp add: p_execute_def)
  have "fst (scan_loop ?ex 0 ?pf s) =
      map (project ?ex)
        (postfilter_select ?pf (candidate_rows (m_lookupType ?ex) (m_numOfSearchkeys ?ex) s))"
    by (rule scan_loop_rows) simp
  with run assms(2) have rows: "rows = map (project ex) (take lim (drop ofs matches))"
    by (simp add: postfilter_select_def new_postfilter_def)
  have "length rows = min lim (length matches - ofs)"
    using rows by simp
  then have len: "int (length rows) = max 0 (min (int lim) (int (length matches) - int ofs))"
    by linarith
  have need: "rows_needed ?pf lim = (if lim = 0 then 0 else ofs + lim)"
    by (simp add: rows_needed_def new_postfilter_def)
  have "pf_limit ?pf = Some lim" by (simp add: new_postfilter_def)
  from scan_loop_limit_position [OF _ this run] assms(2) need
  have pos: "(if lim = 0 then 0 else ofs + lim) \<le> length matches
               \<longrightarrow> status = LimitReached
                  \<and> candidate_rows (m_lookupType ex) (m_numOfSearchkeys ex) s'
                      = drop (if lim = 0 then 0 else ofs + lim) matches"
    and exh: "length matches < (if lim = 0 then 0 else ofs + lim) \<longrightarrow> status = Exhausted"
    by simp_all
  from pos exh have st: "status = (if lim = 0 \<or> ofs + lim \<le> length matches
      then LimitReached else Exhausted)"
    by (cases "lim = 0") auto
  have resumed: "fst (resume_invocations ex limits ?pf s) = rows"
    if "(\<forall>l \<in> set limits. 0 < l) \<and> length (remaining (cursor s)) < length limits"
    using that resume_invocations_full [of limits s ex ?pf] assms(1) by simp
  from rows len st pos resumed show ?thesis by auto
qed

theorem postfilter_offset_limit_witness:
  "p_execute (example_executor\<lparr>m_suspendable := False\<rparr>) (new_postfilter 1 (Some 2))
       (start_scan (moveToEnd example_entries))
     = ([(1, 1), (2, 2)], LimitReached,
        \<lparr>pf_offset = 1, pf_limit = Some 2, pf_skipped = 1, pf_kept = 2\<rparr>,
        \<lparr>tuple = Some (2, 2), cursor = \<lparr>remaining = [(3, (3, 3))], match = None\<rparr>,
         calls = [CallNextValue (Some (1, 0)), CallNextValue (Some (1, 1)),
                  CallNextValue (Some (2, 2))]\<rparr>)
   \<and> candidate_rows (m_lookupType example_executor) (m_numOfSearchkeys example_executor)
       (start_scan (moveToEnd example_entries))
     = [(1, 0), (1, 1), (2, 2), (3, 3)]
   \<and> [(1, 1), (2, 2)]
     = map (project example_executor) (take 2 (drop 1 [(1, 0), (1, 1), (2, 2), (3, 3)]))
   \<and> int (length [(1, 1), (2, 2) :: int \<times> nat])
     = max 0 (min (int 2) (int (length [(1, 0), (1, 1), (2, 2), (3, 3) :: int \<times> nat]) - int 1))
   \<and> candidate_rows (m_lookupType example_executor) (m_numOfSearchkeys example_executor)
       (\<lparr>tuple = Some (2, 2), cursor = \<lparr>remaining = [(3, (3, 3))], match = None\<rparr>,
         calls = [CallNextValue (Some (1, 0)), CallNextValue (Some (1, 1)),
                  CallNextValue (Some (2, 2))]\<rparr> :: (int, int \<times> nat) model_state)
     = [(3, 3)]"
proof -
  note run = example_full_scan
  note cands = example_candidates_executor
  from postfilter_offset_limit [OF run cands [symmetric], of "[]"]
  have "[(1, 1), (2, 2)]
          = map (project example_executor) (take 2 (drop 1 [(1, 0), (1, 1), (2, 2), (3, 3)]))"
    and "candidate_rows (m_lookupType example_executor) (m_numOfSearchkeys example_executor)
          (\<lparr>tuple = Some (2, 2), cursor = \<lparr>remaining = [(3, (3, 3))], match = None\<rparr>,
            calls = [CallNextValue (Some (1, 0)), CallNextValue (Some (1, 1)),
                     CallNextValue (Some (2, 2))]\<rparr> :: (int, int \<times> nat) model_state)
         = drop (1 + 2) [(1, 0), (1, 1), (2, 2), (3, 3)]"
    by simp_all
  with run cands show ?thesis by simp
qed

text \<open>
  C8: an executor that is not suspendable never ends an invocation as suspended: its
  scan ends as exhausted or limit-reached, its result does not depend on the
  suspension row limit, and it emits every match the postfilter lets through. A
  freshly constructed executor is not suspendable, its row limit being the default 1,
  so its scans run to cursor exhaustion or to the postfilter's limit.
\<close>

theorem not_suspendable_runs_to_completion:
  "(\<not> p_isSuspendable ex \<longrightarrow>
       fst (snd (p_execute ex pf s)) \<in> {Exhausted, LimitReached}
     \<and> p_execute (ex\<lparr>m_tupleLimitForSuspendableFragments := l\<rparr>) pf s = p_execute ex pf s
     \<and> fst (p_execute ex pf s)
         = map (project ex)
             (postfilter_select pf
                (candidate_rows (m_lookupType ex) (m_numOfSearchkeys ex) s)))
   \<and> \<not> p_isSuspendable (IndexScanExecutor_new u)
   \<and> m_tupleLimitForSuspendableFragments (IndexScanExecutor_new u) = 1
   \<and> fst (snd (p_execute (IndexScanExecutor_new u) pf s)) \<in> {Exhausted, LimitReached}"
proof -
  have status: "fst (snd (p_execute e pf s)) \<in> {Exhausted, LimitReached}"
    if "\<not> m_suspendable e" for e :: "'a IndexScanExecutor"
  proof -
    from that have "fst (snd (scan_loop e 0 pf s)) \<noteq> Suspended"
      by (rule scan_loop_never_suspended)
    then show ?thesis
      by (cases "fst (snd (scan_loop e 0 pf s))") (simp_all add: p_execute_def)
  qed
  have new: "\<not> m_suspendable (IndexScanExecutor_new u)"
    "m_tupleLimitForSuspendableFragments (IndexScanExecutor_new u) = 1"
    by (simp_all add: IndexScanExecutor_new_def)
  show ?thesis
    using status [of ex] status [of "IndexScanExecutor_new u"] new
      scan_loop_limit_irrelevant [of ex l 0 pf s] scan_loop_rows [of ex 0 pf s]
    by (simp add: p_isSuspendable_def p_execute_def)
qed

theorem not_suspendable_runs_to_completion_witness:
  "\<not> p_isSuspendable (IndexScanExecutor_new example_executor)
   \<and> IndexScanExecutor_new example_executor
       = example_executor\<lparr>m_suspendable := False, m_tupleLimitForSuspendableFragments := 1\<rparr>
   \<and> p_execute (IndexScanExecutor_new example_executor) (new_postfilter 0 None)
       (start_scan (moveToEnd example_entries))
     = ([(1, 0), (1, 1), (2, 2), (3, 3)], Exhausted,
        \<lparr>pf_offset = 0, pf_limit = None, pf_skipped = 0, pf_kept = 4\<rparr>,
        \<lparr>tuple = None, cursor = \<lparr>remaining = [], match = None\<rparr>,
         calls = [CallNextValue (Some (1, 0)), CallNextValue (Some (1, 1)),
                  CallNextValue (Some (2, 2)), CallNextValue (Some (3, 3)),
                  CallNextValue None]\<rparr>)"
  using not_suspendable_runs_to_completion
    [of "IndexScanExecutor_new example_executor" "new_postfilter 0 None"
        "start_scan (moveToEnd example_entries)" 1 example_executor]
  by (simp add: IndexScanExecutor_new_def example_eval)

end
